theory Spec2Isabelle
  imports Main "HOL-Library.Sublist"
begin

section \<open>Python strings\<close>

text \<open>
  A Python \<open>str\<close> is a sequence of Unicode code points. A code point is modelled as a
  natural number and a string as the list of its code points, so that \<open>length\<close>,
  slicing and comparison count what Python counts. \<open>py\<close> writes an ASCII literal.
\<close>

type_synonym str = "nat list"

abbreviation LF :: nat where "LF \<equiv> 10"
abbreviation SP :: nat where "SP \<equiv> 32"

definition py :: "string \<Rightarrow> str" where
  "py s = map of_char s"

text \<open>
  \<open>str.isspace\<close> for one code point, as CPython decides it: the characters of
  bidirectional type WS, B or S and of category Zs.
\<close>

definition isspace :: "nat \<Rightarrow> bool" where
  "isspace c \<longleftrightarrow>
     (9 \<le> c \<and> c \<le> 13) \<or> (28 \<le> c \<and> c \<le> 32) \<or> c = 133 \<or> c = 160 \<or> c = 5760 \<or>
     (8192 \<le> c \<and> c \<le> 8202) \<or> c = 8232 \<or> c = 8233 \<or> c = 8239 \<or> c = 8287 \<or> c = 12288"

text \<open>\<open>s.strip()\<close>: whitespace is removed from both ends, the interior is kept.\<close>

definition strip :: "str \<Rightarrow> str" where
  "strip s = rev (dropWhile isspace (rev (dropWhile isspace s)))"

text \<open>\<open>s.replace(old, new)\<close> where \<open>old\<close> and \<open>new\<close> are one character each.\<close>

definition replace_chr :: "nat \<Rightarrow> nat \<Rightarrow> str \<Rightarrow> str" where
  "replace_chr old new s = map (\<lambda>c. if c = old then new else c) s"

text \<open>
  \<open>s.split(sep)\<close> for a one-character separator: the scan keeps the field read so far
  in \<open>cur\<close> and closes it at each separator. The empty string gives one empty field.
\<close>

fun split_scan :: "nat \<Rightarrow> str \<Rightarrow> str \<Rightarrow> str list" where
  "split_scan sep cur [] = [cur]"
| "split_scan sep cur (c # cs) =
     (if c = sep then cur # split_scan sep [] cs else split_scan sep (cur @ [c]) cs)"

definition split_chr :: "nat \<Rightarrow> str \<Rightarrow> str list" where
  "split_chr sep s = split_scan sep [] s"

text \<open>\<open>sep.join(parts)\<close>.\<close>

fun join :: "str \<Rightarrow> str list \<Rightarrow> str" where
  "join sep [] = []"
| "join sep [p] = p"
| "join sep (p # q # ps) = p @ sep @ join sep (q # ps)"

section \<open>Documents and cleaning (cell 4)\<close>

text \<open>
  A retrieved passage is a LangChain \<open>Document\<close>. The pipeline reads only its
  \<open>page_content\<close>; everything else it carries is the \<open>metadata\<close>.
\<close>

record 'm document =
  page_content :: str
  metadata :: 'm

definition clean_text :: "str \<Rightarrow> str" where
  "clean_text text = strip (replace_chr LF SP text)"

text \<open>
  \<open>format_doc\<close>: the loop appends one cleaned passage per document and prints its first
  100 characters. The pair carried through the loop is the lines printed so far and
  \<open>cleaned_docs\<close>. The function returns the join; the printed lines are kept apart.
\<close>

definition snippet_label :: str where
  "snippet_label = py ''Cleaned snippet: ''"

fun format_doc_loop ::
  "'m document list \<Rightarrow> str list \<times> str list \<Rightarrow> str list \<times> str list" where
  "format_doc_loop [] (printed, cleaned_docs) = (printed, cleaned_docs)"
| "format_doc_loop (doc # docs) (printed, cleaned_docs) =
     (let cleaned = clean_text (page_content doc)
      in format_doc_loop docs
           (printed @ [snippet_label @ take 100 cleaned], cleaned_docs @ [cleaned]))"

definition format_doc :: "'m document list \<Rightarrow> str" where
  "format_doc docs = join [LF, LF] (snd (format_doc_loop docs ([], [])))"

definition format_doc_printed :: "'m document list \<Rightarrow> str list" where
  "format_doc_printed docs = fst (format_doc_loop docs ([], []))"

section \<open>The external services\<close>

text \<open>
  The chat model and the vector store are network services. Each is a function of its
  request and of the state of the outside world \<open>'w\<close>; it returns the new state and either
  the exception it raised (\<open>Inl\<close>) or its reply. The chat model is \<open>llm\<close> followed by
  \<open>StrOutputParser\<close>: its reply is the text of the completion.
\<close>

datatype role = System | Human

type_synonym message = "role \<times> str"

type_synonym ('e, 'w) chat_model = "message list \<Rightarrow> 'w \<Rightarrow> ('e + str) \<times> 'w"

type_synonym ('e, 'm, 'w) vector_store =
  "str \<Rightarrow> int \<Rightarrow> 'w \<Rightarrow> ('e + 'm document list) \<times> 'w"

section \<open>Query expansion (cell 5)\<close>

text \<open>The instruction of \<open>expand_query\<close>, up to the place of the question.\<close>

definition expand_instruction :: str where
  "expand_instruction = [
    1055, 1088, 1077, 1092, 1086, 1088, 1084, 1091, 1083, 1080, 1088, 1072, 1081, 32, 1089,
    1083, 1077, 1076, 1085, 1080, 1103, 32, 1074, 1098, 1087, 1088, 1086, 1089, 32, 1074,
    32, 53, 32, 1088, 1072, 1079, 1085, 1086, 1086, 1073, 1088, 1072, 1079, 1085, 1080, 32,
    1080, 32, 1089, 1077, 1084, 1072, 1085, 1090, 1080, 1095, 1085, 1086, 32, 1088, 1072,
    1079, 1083, 1080, 1095, 1085, 1080, 32, 1079, 1072, 1103, 1074, 1082, 1080, 58, 10, 10]"

definition expand_prompt :: "str \<Rightarrow> message list" where
  "expand_prompt question = [(Human, expand_instruction @ question)]"

text \<open>The list comprehension that \<open>expand_query\<close> returns.\<close>

definition parse_queries :: "str \<Rightarrow> str list" where
  "parse_queries result = [strip q. q \<leftarrow> split_chr LF result, strip q \<noteq> []]"

definition expand_query :: "str \<Rightarrow> ('e, 'w) chat_model \<Rightarrow> 'w \<Rightarrow> ('e + str list) \<times> 'w" where
  "expand_query question llm_model w =
     (case llm_model (expand_prompt question) w of
        (Inl e, w') \<Rightarrow> (Inl e, w')
      | (Inr result, w') \<Rightarrow> (Inr (parse_queries result), w'))"

section \<open>Similarity search and deduplication (cell 6)\<close>

text \<open>The first loop of \<open>retrieve_documents\<close>: one search per expanded question.\<close>

fun search_loop ::
  "str list \<Rightarrow> int \<Rightarrow> ('e, 'm, 'w) vector_store \<Rightarrow> 'm document list \<Rightarrow> 'w
     \<Rightarrow> ('e + 'm document list) \<times> 'w" where
  "search_loop [] k vector_store all_docs w = (Inr all_docs, w)"
| "search_loop (q # qs) k vector_store all_docs w =
     (case vector_store q k w of
        (Inl e, w') \<Rightarrow> (Inl e, w')
      | (Inr docs, w') \<Rightarrow> search_loop qs k vector_store (all_docs @ docs) w')"

text \<open>The second loop: a document is kept when its content has not been seen.\<close>

fun unique_loop ::
  "'m document list \<Rightarrow> str set \<Rightarrow> 'm document list
     \<Rightarrow> 'm document list" where
  "unique_loop [] seen unique_docs = unique_docs"
| "unique_loop (doc # all_docs) seen unique_docs =
     (if page_content doc \<notin> seen
      then unique_loop all_docs (insert (page_content doc) seen) (unique_docs @ [doc])
      else unique_loop all_docs seen unique_docs)"

definition retrieve_documents ::
  "str \<Rightarrow> int \<Rightarrow> ('e, 'w) chat_model \<Rightarrow> ('e, 'm, 'w) vector_store \<Rightarrow> 'w
     \<Rightarrow> ('e + 'm document list) \<times> 'w" where
  "retrieve_documents question k llm vector_store w =
     (case expand_query question llm w of
        (Inl e, w1) \<Rightarrow> (Inl e, w1)
      | (Inr expanded_questions, w1) \<Rightarrow>
          (case search_loop expanded_questions k vector_store [] w1 of
             (Inl e, w2) \<Rightarrow> (Inl e, w2)
           | (Inr all_docs, w2) \<Rightarrow> (Inr (take 2 (unique_loop all_docs {} [])), w2)))"

text \<open>
  The part of \<open>retrieve_documents\<close> that runs on the lists the searches returned:
  \<open>all_docs\<close> is extended by each list in turn, deduplicated and cut to two entries.
  \<open>merge_unique\<close> is the value of \<open>unique_docs\<close> when the second loop ends.
\<close>

fun extend_all :: "'a list list \<Rightarrow> 'a list \<Rightarrow> 'a list" where
  "extend_all [] all_docs = all_docs"
| "extend_all (docs # rest) all_docs = extend_all rest (all_docs @ docs)"

definition merge_unique ::
  "'m document list list \<Rightarrow> 'm document list" where
  "merge_unique doc_lists = unique_loop (extend_all doc_lists []) {} []"

definition ResultAggregator ::
  "'m document list list \<Rightarrow> 'm document list" where
  "ResultAggregator doc_lists = take 2 (merge_unique doc_lists)"

section \<open>The answer prompt and the main chain\<close>

definition system_prefix :: str where
  "system_prefix = [
    1054, 1090, 1075, 1086, 1074, 1086, 1088, 1080, 32, 1085, 1072, 32, 1074, 1098, 1087,
    1088, 1086, 1089, 1072, 32, 1057, 1040, 1052, 1054, 32, 1085, 1072, 32, 1073, 1072,
    1079, 1072, 1090, 1072, 32, 1085, 1072, 32, 1090, 1072, 1079, 1080, 32, 1080, 1085,
    1092, 1086, 1088, 1084, 1072, 1094, 1080, 1103, 58, 10, 10]"

definition system_suffix :: str where
  "system_suffix = [
    10, 10, 1040, 1082, 1086, 32, 1086, 1090, 1075, 1086, 1074, 1086, 1088, 1098, 1090, 32,
    1085, 1077, 32, 1077, 32, 1085, 1072, 1084, 1077, 1088, 1077, 1085, 44, 32, 1082, 1072,
    1078, 1080, 32, 39, 1085, 1077, 32, 1084, 1086, 1075, 1072, 32, 1076, 1072, 32, 1086,
    1090, 1075, 1086, 1074, 1086, 1088, 1103, 32, 1085, 1072, 32, 1073, 1072, 1079, 1072,
    1090, 1072, 32, 1085, 1072, 32, 1080, 1085, 1092, 1086, 1088, 1084, 1072, 1094, 1080,
    1103, 1090, 1072, 32, 1086, 1090, 32, 1076, 1086, 1082, 1091, 1084, 1077, 1085, 1090,
    1072, 46, 39]"

definition prompt :: "str \<Rightarrow> str \<Rightarrow> message list" where
  "prompt context question =
     [(System, system_prefix @ context @ system_suffix), (Human, question)]"

text \<open>
  \<open>rag_chain\<close>: the context branch runs \<open>retrieve_documents\<close> with its default \<open>k = 2\<close>
  and then \<open>format_doc\<close>; the question is passed through; the prompt is sent to the model.
\<close>

definition rag_chain ::
  "str \<Rightarrow> ('e, 'w) chat_model \<Rightarrow> ('e, 'm, 'w) vector_store \<Rightarrow> 'w \<Rightarrow> ('e + str) \<times> 'w" where
  "rag_chain question llm vector_store w =
     (case retrieve_documents question 2 llm vector_store w of
        (Inl e, w1) \<Rightarrow> (Inl e, w1)
      | (Inr docs, w1) \<Rightarrow> llm (prompt (format_doc docs) question) w1)"

definition answer_question ::
  "str \<Rightarrow> ('e, 'w) chat_model \<Rightarrow> ('e, 'm, 'w) vector_store \<Rightarrow> 'w \<Rightarrow> ('e + str) \<times> 'w" where
  "answer_question question llm vector_store w = rag_chain question llm vector_store w"

section \<open>The orchestration as the specification words it\<close>

text \<open>
  The specification gives the answer operation as the composition
  \<open>AnswerGenerator(question, ContextFormatter(ResultAggregator([CandidateRetriever(q)
  for q in QueryExpander(question)])))\<close>, a failure of any stage ending the run, with a
  fallback when the expansion yields no candidate. The definitions of this section are
  written from its words, stage by stage, and use nothing of the code but the string
  operations and the types. The specification fixes neither the text of the instruction
  nor that of the answer prompt; both are parameters.
\<close>

text \<open>
  QueryExpander: build the instruction, invoke the generation service once, split the
  reply on line boundaries, trim whitespace, drop empty lines.
\<close>

definition QueryExpander ::
  "(str \<Rightarrow> message list) \<Rightarrow> str \<Rightarrow> ('e, 'w) chat_model \<Rightarrow> 'w \<Rightarrow> ('e + str list) \<times> 'w" where
  "QueryExpander instruction question llm w =
     (case llm (instruction question) w of
        (Inl e, w') \<Rightarrow> (Inl e, w')
      | (Inr reply, w') \<Rightarrow> (Inr (filter (\<lambda>l. l \<noteq> []) (map strip (split_chr LF reply))), w'))"

text \<open>
  The policy for the candidate list. The specification falls back to the original
  question as the sole candidate when the list is empty; \<open>keep_candidates\<close> is the
  policy without a fallback.
\<close>

definition sole_candidate_fallback :: "str \<Rightarrow> str list \<Rightarrow> str list" where
  "sole_candidate_fallback question candidates =
     (if candidates = [] then [question] else candidates)"

definition keep_candidates :: "str \<Rightarrow> str list \<Rightarrow> str list" where
  "keep_candidates question candidates = candidates"

text \<open>CandidateRetriever, and the fan-out over the candidates in their order.\<close>

definition CandidateRetriever ::
  "str \<Rightarrow> int \<Rightarrow> ('e, 'm, 'w) vector_store \<Rightarrow> 'w \<Rightarrow> ('e + 'm document list) \<times> 'w" where
  "CandidateRetriever q k vector_store w = vector_store q k w"

fun retrieve_each ::
  "str list \<Rightarrow> int \<Rightarrow> ('e, 'm, 'w) vector_store \<Rightarrow> 'w
     \<Rightarrow> ('e + 'm document list list) \<times> 'w" where
  "retrieve_each [] k vector_store w = (Inr [], w)"
| "retrieve_each (q # qs) k vector_store w =
     (case CandidateRetriever q k vector_store w of
        (Inl e, w') \<Rightarrow> (Inl e, w')
      | (Inr docs, w') \<Rightarrow>
          (case retrieve_each qs k vector_store w' of
             (Inl e, w'') \<Rightarrow> (Inl e, w'')
           | (Inr rest, w'') \<Rightarrow> (Inr (docs # rest), w'')))"

text \<open>
  The aggregation of section 4.3: the passages are taken in candidate-query order; a
  passage whose identity key is seen for the first time goes to the output and its key
  is marked; a passage whose key is marked is dropped; the output is cut to its first
  \<open>N\<close> entries. The specification's key is the trimmed content, \<open>strip\<close>.
\<close>

fun first_sight :: "(str \<Rightarrow> str) \<Rightarrow> str set \<Rightarrow> 'm document list \<Rightarrow> 'm document list" where
  "first_sight key marked [] = []"
| "first_sight key marked (d # ds) =
     (if key (page_content d) \<in> marked then first_sight key marked ds
      else d # first_sight key (insert (key (page_content d)) marked) ds)"

definition SpecAggregator ::
  "(str \<Rightarrow> str) \<Rightarrow> nat \<Rightarrow> 'm document list list \<Rightarrow> 'm document list" where
  "SpecAggregator key N doc_lists = take N (first_sight key {} (concat doc_lists))"

text \<open>
  ContextFormatter: in each passage every line break becomes one space and the result
  is trimmed; the normalized passages are joined by a blank line.
\<close>

definition ContextFormatter :: "'m document list \<Rightarrow> str" where
  "ContextFormatter docs =
     join [LF, LF]
       (map (\<lambda>d. strip (map (\<lambda>c. if c = LF then SP else c) (page_content d))) docs)"

text \<open>AnswerGenerator: one call of the generation service, its reply returned as it is.\<close>

definition AnswerGenerator ::
  "(str \<Rightarrow> str \<Rightarrow> message list) \<Rightarrow> str \<Rightarrow> str \<Rightarrow> ('e, 'w) chat_model \<Rightarrow> 'w
     \<Rightarrow> ('e + str) \<times> 'w" where
  "AnswerGenerator template question context llm w = llm (template context question) w"

text \<open>
  The composition, for a candidate policy and an identity key, with the specification's
  defaults: two passages per query and a final limit of two.
\<close>

definition answer_composition ::
  "(str \<Rightarrow> str list \<Rightarrow> str list) \<Rightarrow> (str \<Rightarrow> str) \<Rightarrow> (str \<Rightarrow> message list)
     \<Rightarrow> (str \<Rightarrow> str \<Rightarrow> message list) \<Rightarrow> str \<Rightarrow> ('e, 'w) chat_model
     \<Rightarrow> ('e, 'm, 'w) vector_store \<Rightarrow> 'w \<Rightarrow> ('e + str) \<times> 'w" where
  "answer_composition policy key instruction template question llm vector_store w =
     (case QueryExpander instruction question llm w of
        (Inl e, w1) \<Rightarrow> (Inl e, w1)
      | (Inr candidates, w1) \<Rightarrow>
          (case retrieve_each (policy question candidates) 2 vector_store w1 of
             (Inl e, w2) \<Rightarrow> (Inl e, w2)
           | (Inr doc_lists, w2) \<Rightarrow>
               AnswerGenerator template question
                 (ContextFormatter (SpecAggregator key 2 doc_lists)) llm w2))"

text \<open>The answer operation of the specification: the fallback and the trimmed key.\<close>

definition answer_spec ::
  "(str \<Rightarrow> message list) \<Rightarrow> (str \<Rightarrow> str \<Rightarrow> message list) \<Rightarrow> str \<Rightarrow> ('e, 'w) chat_model
     \<Rightarrow> ('e, 'm, 'w) vector_store \<Rightarrow> 'w \<Rightarrow> ('e + str) \<times> 'w" where
  "answer_spec instruction template question llm vector_store w =
     answer_composition sole_candidate_fallback strip instruction template
       question llm vector_store w"

section \<open>Concrete passages and services for the examples\<close>

text \<open>
  A passage whose metadata is a number, a chat model that always replies with the empty
  string, and a vector store that records each query it receives in the world (the list
  of queries searched so far) and returns one passage holding the query.
\<close>

definition passage :: "nat \<Rightarrow> string \<Rightarrow> nat document" where
  "passage n s = \<lparr>page_content = py s, metadata = n\<rparr>"

definition silent_llm :: "(unit, str list) chat_model" where
  "silent_llm messages w = (Inr [], w)"

definition recording_store :: "(unit, nat, str list) vector_store" where
  "recording_store q k w = (Inr [\<lparr>page_content = q, metadata = 0\<rparr>], w @ [q])"

text \<open>
  A chat model that answers a prompt opening with a system turn by repeating that turn
  and any other prompt by the single line \<open>x\<close>, and a vector store that returns the same
  two passages for every query. Neither changes the world.
\<close>

definition repeating_llm :: "(unit, 'w) chat_model" where
  "repeating_llm messages w =
     (case messages of
        (System, content) # rest \<Rightarrow> (Inr content, w)
      | _ \<Rightarrow> (Inr (py ''x''), w))"

definition variant_store :: "(unit, nat, 'w) vector_store" where
  "variant_store q k w = (Inr [passage 1 '' a'', passage 2 ''a''], w)"

section \<open>Properties of the deduplication loop\<close>

text \<open>The accumulator \<open>unique_docs\<close> only grows at its end.\<close>

lemma unique_loop_acc: "unique_loop xs seen acc = acc @ unique_loop xs seen []"
proof (induction xs arbitrary: seen acc)
  case Nil show ?case by simp
next
  case (Cons x xs)
  have a: "unique_loop xs (insert (page_content x) seen) (acc @ [x])
             = (acc @ [x]) @ unique_loop xs (insert (page_content x) seen) []"
    by (rule Cons.IH)
  have b: "unique_loop xs (insert (page_content x) seen) [x]
             = [x] @ unique_loop xs (insert (page_content x) seen) []"
    by (rule Cons.IH)
  have c: "unique_loop xs seen acc = acc @ unique_loop xs seen []"
    by (rule Cons.IH)
  show ?case
  proof (cases "page_content x \<in> seen")
    case True then show ?thesis using c by simp
  next
    case False then show ?thesis by (simp add: a b)
  qed
qed


lemma unique_loop_Cons:
  "unique_loop (x # xs) seen [] =
     (if page_content x \<notin> seen then x # unique_loop xs (insert (page_content x) seen) []
      else unique_loop xs seen [])"
  using unique_loop_acc[of xs "insert (page_content x) seen" "[x]"] by simp

lemma unique_loop_contents:
  "page_content ` set (unique_loop xs seen []) = page_content ` set xs - seen"
  by (induction xs arbitrary: seen) (auto simp: unique_loop_Cons simp del: unique_loop.simps(2))

lemma unique_loop_distinct: "distinct (map page_content (unique_loop xs seen []))"
proof (induction xs arbitrary: seen)
  case Nil show ?case by simp
next
  case (Cons x xs)
  have "page_content x \<notin> page_content ` set (unique_loop xs (insert (page_content x) seen) [])"
    by (simp add: unique_loop_contents)
  with Cons.IH show ?case
    by (simp add: unique_loop_Cons del: unique_loop.simps(2))
qed

lemma unique_loop_subseq: "subseq (unique_loop xs seen []) xs"
  by (induction xs arbitrary: seen) (auto simp: unique_loop_Cons simp del: unique_loop.simps(2))

lemma unique_loop_first:
  "d \<in> set (unique_loop xs seen []) \<Longrightarrow> find (\<lambda>e. page_content e = page_content d) xs = Some d"
proof (induction xs arbitrary: seen)
  case Nil then show ?case by simp
next
  case (Cons x xs)
  show ?case
  proof (cases "d = x")
    case True then show ?thesis by simp
  next
    case False
    have notseen: "page_content d \<notin> seen"
      using Cons.prems unique_loop_contents[of "x # xs" seen] by blast
    show ?thesis
    proof (cases "page_content x \<in> seen")
      case True
      with Cons.prems have "d \<in> set (unique_loop xs seen [])"
        by (simp add: unique_loop_Cons del: unique_loop.simps(2))
      moreover from True notseen have "page_content x \<noteq> page_content d" by auto
      ultimately show ?thesis using Cons.IH by simp
    next
      case nin: False
      with Cons.prems False have m: "d \<in> set (unique_loop xs (insert (page_content x) seen) [])"
        by (simp add: unique_loop_Cons del: unique_loop.simps(2))
      then have "page_content d \<notin> insert (page_content x) seen"
        using unique_loop_contents[of xs "insert (page_content x) seen"] by blast
      then have "page_content x \<noteq> page_content d" by auto
      with m show ?thesis using Cons.IH by simp
    qed
  qed
qed

lemma unique_loop_append:
  "unique_loop (xs @ ys) seen [] =
     unique_loop xs seen [] @ unique_loop ys (seen \<union> page_content ` set xs) []"
proof (induction xs arbitrary: seen)
  case Nil show ?case by simp
next
  case (Cons x xs)
  show ?case
  proof (cases "page_content x \<in> seen")
    case True
    then have e: "seen \<union> page_content ` set (x # xs) = seen \<union> page_content ` set xs"
      by auto
    have "unique_loop ((x # xs) @ ys) seen [] = unique_loop (xs @ ys) seen []"
      using True by simp
    also have "\<dots> = unique_loop xs seen [] @ unique_loop ys (seen \<union> page_content ` set xs) []"
      by (rule Cons.IH)
    also have "unique_loop xs seen [] = unique_loop (x # xs) seen []"
      using True by simp
    finally show ?thesis unfolding e .
  next
    case False
    let ?s = "insert (page_content x) seen"
    have e: "seen \<union> page_content ` set (x # xs) = ?s \<union> page_content ` set xs"
      by auto
    have "unique_loop ((x # xs) @ ys) seen [] = x # unique_loop (xs @ ys) ?s []"
      using False unique_loop_Cons[of x "xs @ ys" seen] by simp
    also have "unique_loop (xs @ ys) ?s []
                 = unique_loop xs ?s [] @ unique_loop ys (?s \<union> page_content ` set xs) []"
      by (rule Cons.IH)
    finally have "unique_loop ((x # xs) @ ys) seen []
        = (x # unique_loop xs ?s []) @ unique_loop ys (?s \<union> page_content ` set xs) []"
      by simp
    moreover have "x # unique_loop xs ?s [] = unique_loop (x # xs) seen []"
      using False unique_loop_Cons[of x xs seen] by simp
    ultimately show ?thesis unfolding e by simp
  qed
qed

lemma unique_loop_more_seen:
  "unique_loop ys (seen \<union> S) [] = filter (\<lambda>d. page_content d \<notin> S) (unique_loop ys seen [])"
proof (induction ys arbitrary: seen)
  case Nil show ?case by simp
next
  case (Cons y ys)
  let ?c = "page_content y"
  show ?case
  proof (cases "?c \<in> seen")
    case True
    then have "unique_loop (y # ys) (seen \<union> S) [] = unique_loop ys (seen \<union> S) []"
      and "unique_loop (y # ys) seen [] = unique_loop ys seen []"
      by simp_all
    then show ?thesis using Cons.IH[of seen] by (simp only:)
  next
    case False
    have r: "unique_loop (y # ys) seen [] = y # unique_loop ys (insert ?c seen) []"
      using False unique_loop_Cons[of y ys seen] by simp
    have ih: "unique_loop ys (insert ?c seen \<union> S) []
                = filter (\<lambda>d. page_content d \<notin> S) (unique_loop ys (insert ?c seen) [])"
      by (rule Cons.IH)
    show ?thesis
    proof (cases "?c \<in> S")
      case True
      then have e: "insert ?c seen \<union> S = seen \<union> S" by auto
      have "unique_loop (y # ys) (seen \<union> S) [] = unique_loop ys (seen \<union> S) []"
        using True by simp
      also have "\<dots> = filter (\<lambda>d. page_content d \<notin> S) (unique_loop ys (insert ?c seen) [])"
        using ih unfolding e .
      also have "\<dots> = filter (\<lambda>d. page_content d \<notin> S) (unique_loop (y # ys) seen [])"
        unfolding r using True by simp
      finally show ?thesis .
    next
      case nS: False
      have e: "insert ?c (seen \<union> S) = insert ?c seen \<union> S" by auto
      have "unique_loop (y # ys) (seen \<union> S) [] = y # unique_loop ys (insert ?c (seen \<union> S)) []"
        using nS False unique_loop_Cons[of y ys "seen \<union> S"] by simp
      also have "\<dots> = y # filter (\<lambda>d. page_content d \<notin> S) (unique_loop ys (insert ?c seen) [])"
        unfolding e using ih by (simp only:)
      also have "\<dots> = filter (\<lambda>d. page_content d \<notin> S) (unique_loop (y # ys) seen [])"
        unfolding r using nS by simp
      finally show ?thesis .
    qed
  qed
qed

lemma unique_loop_fixed:
  "distinct (map page_content xs) \<Longrightarrow> page_content ` set xs \<inter> seen = {}
     \<Longrightarrow> unique_loop xs seen [] = xs"
proof (induction xs arbitrary: seen)
  case Nil show ?case by simp
next
  case (Cons x xs)
  from Cons.prems have n: "page_content x \<notin> seen" by auto
  from Cons.prems have "page_content ` set xs \<inter> insert (page_content x) seen = {}"
    by auto
  moreover from Cons.prems have "distinct (map page_content xs)" by simp
  ultimately have "unique_loop xs (insert (page_content x) seen) [] = xs"
    by (rule Cons.IH[rotated])
  then show ?case using n unique_loop_Cons[of x xs seen] by simp
qed

lemma extend_all_concat: "extend_all ls acc = acc @ concat ls"
  by (induction ls arbitrary: acc) auto

section \<open>Properties of the aggregation\<close>

lemma merge_unique_concat: "merge_unique ls = unique_loop (concat ls) {} []"
  by (simp add: merge_unique_def extend_all_concat)

lemma merge_unique_distinct: "distinct (map page_content (merge_unique ls))"
  by (simp add: merge_unique_concat unique_loop_distinct)

lemma merge_unique_contents:
  "page_content ` set (merge_unique ls) = page_content ` set (concat ls)"
  using unique_loop_contents[of "concat ls" "{}"] by (simp add: merge_unique_concat)

lemma merge_unique_subseq: "subseq (merge_unique ls) (concat ls)"
  by (simp add: merge_unique_concat unique_loop_subseq)

lemma subseq_subset: "subseq xs ys \<Longrightarrow> set xs \<subseteq> set ys"
  by (induction rule: list_emb.induct) auto

lemma merge_unique_subset: "set (merge_unique ls) \<subseteq> set (concat ls)"
  using merge_unique_subseq[of ls] by (rule subseq_subset)

lemma merge_unique_length:
  "length (merge_unique ls) = card (page_content ` set (concat ls))"
proof -
  have "length (merge_unique ls) = length (map page_content (merge_unique ls))" by simp
  also have "\<dots> = card (set (map page_content (merge_unique ls)))"
    using merge_unique_distinct[of ls] by (rule distinct_card[symmetric])
  also have "\<dots> = card (page_content ` set (concat ls))"
    using merge_unique_contents[of ls] by simp
  finally show ?thesis .
qed

section \<open>Length bound of the aggregated context\<close>

text \<open>
  C4: for every list of per-query passage lists the aggregated context has at most two
  entries, two being the limit the code fixes. Its length is the smaller of two and the
  number of distinct contents; its entries are passages of the input with pairwise
  different contents (nothing is added); and when there are at most two distinct contents
  every one of them is returned.
\<close>

theorem aggregator_bounded:
  "length (ResultAggregator doc_lists) \<le> 2 \<and>
   length (ResultAggregator doc_lists) = min 2 (card (page_content ` set (concat doc_lists))) \<and>
   set (ResultAggregator doc_lists) \<subseteq> set (concat doc_lists) \<and>
   distinct (map page_content (ResultAggregator doc_lists)) \<and>
   (card (page_content ` set (concat doc_lists)) \<le> 2 \<longrightarrow>
      page_content ` set (ResultAggregator doc_lists) = page_content ` set (concat doc_lists))"
proof -
  let ?u = "merge_unique doc_lists"
  have len: "length ?u = card (page_content ` set (concat doc_lists))"
    by (rule merge_unique_length)
  have a: "length (ResultAggregator doc_lists) \<le> 2"
    by (simp add: ResultAggregator_def)
  have b: "length (ResultAggregator doc_lists) = min 2 (card (page_content ` set (concat doc_lists)))"
    using len by (simp add: ResultAggregator_def min.commute)
  have "set (take 2 ?u) \<subseteq> set ?u" by (rule set_take_subset)
  then have c: "set (ResultAggregator doc_lists) \<subseteq> set (concat doc_lists)"
    using merge_unique_subset[of doc_lists] by (simp add: ResultAggregator_def)
  have "distinct (take 2 (map page_content ?u))"
    using merge_unique_distinct[of doc_lists] by (rule distinct_take)
  then have d: "distinct (map page_content (ResultAggregator doc_lists))"
    by (simp add: ResultAggregator_def take_map)
  have e: "page_content ` set (ResultAggregator doc_lists) = page_content ` set (concat doc_lists)"
    if "card (page_content ` set (concat doc_lists)) \<le> 2"
  proof -
    from that len have "take 2 ?u = ?u" by simp
    then show ?thesis using merge_unique_contents[of doc_lists]
      by (simp add: ResultAggregator_def)
  qed
  from e have e': "card (page_content ` set (concat doc_lists)) \<le> 2 \<longrightarrow>
      page_content ` set (ResultAggregator doc_lists) = page_content ` set (concat doc_lists)"
    by (rule impI)
  show ?thesis
    by (rule conjI[OF a conjI[OF b conjI[OF c conjI[OF d e']]]])
qed

text \<open>The bound at two lists that share their only content.\<close>

theorem aggregator_bounded_witness:
  "card (page_content ` set (concat [[passage 1 ''a''], [passage 2 ''a'']])) \<le> 2 \<and>
   ResultAggregator [[passage 1 ''a''], [passage 2 ''a'']] = [passage 1 ''a''] \<and>
   page_content ` set (ResultAggregator [[passage 1 ''a''], [passage 2 ''a'']])
     = page_content ` set (concat [[passage 1 ''a''], [passage 2 ''a'']])"
proof -
  have c: "card (page_content ` set (concat [[passage 1 ''a''], [passage 2 ''a'']])) \<le> 2"
    by (simp add: passage_def py_def)
  have r: "ResultAggregator [[passage 1 ''a''], [passage 2 ''a'']] = [passage 1 ''a'']"
    by (simp add: ResultAggregator_def merge_unique_def passage_def py_def)
  note t = aggregator_bounded[of "[[passage 1 ''a''], [passage 2 ''a'']]"]
  have i: "page_content ` set (ResultAggregator [[passage 1 ''a''], [passage 2 ''a'']])
     = page_content ` set (concat [[passage 1 ''a''], [passage 2 ''a'']])"
    by (rule t[THEN conjunct2, THEN conjunct2, THEN conjunct2, THEN conjunct2, THEN mp, OF c])
  show ?thesis by (rule conjI[OF c conjI[OF r i]])
qed

section \<open>Idempotence of the aggregation\<close>

text \<open>
  C5: aggregating the output of an aggregation, taken as a single passage list, gives
  that output again.
\<close>

theorem aggregator_idempotent:
  "ResultAggregator [ResultAggregator doc_lists] = ResultAggregator doc_lists"
proof -
  let ?out = "take 2 (merge_unique doc_lists)"
  have "distinct (take 2 (map page_content (merge_unique doc_lists)))"
    using merge_unique_distinct[of doc_lists] by (rule distinct_take)
  then have d: "distinct (map page_content ?out)" by (simp add: take_map)
  have "merge_unique [?out] = unique_loop ?out {} []"
    by (simp add: merge_unique_concat)
  also have "\<dots> = ?out" using d by (rule unique_loop_fixed) simp
  finally have "merge_unique [?out] = ?out" .
  then show ?thesis by (simp add: ResultAggregator_def)
qed

section \<open>Properties of the string operations\<close>

lemma split_scan_nonempty: "split_scan sep cur s \<noteq> []"
  by (induction s arbitrary: cur) auto

lemma join_Cons: "ps \<noteq> [] \<Longrightarrow> join sep (p # ps) = p @ sep @ join sep ps"
  by (cases ps) auto

lemma join_split_scan: "join [sep] (split_scan sep cur s) = cur @ s"
proof (induction s arbitrary: cur)
  case Nil show ?case by simp
next
  case (Cons c cs)
  show ?case
  proof (cases "c = sep")
    case True
    have "join [sep] (cur # split_scan sep [] cs) = cur @ [sep] @ join [sep] (split_scan sep [] cs)"
      using split_scan_nonempty by (rule join_Cons)
    then show ?thesis using True Cons.IH[of "[]"] by simp
  next
    case False
    then show ?thesis using Cons.IH[of "cur @ [c]"] by simp
  qed
qed

lemma split_scan_no_sep:
  "sep \<notin> set cur \<Longrightarrow> p \<in> set (split_scan sep cur s) \<Longrightarrow> sep \<notin> set p"
proof (induction s arbitrary: cur)
  case Nil then show ?case by simp
next
  case (Cons c cs)
  show ?case
  proof (cases "c = sep")
    case True
    with Cons.prems have "p = cur \<or> p \<in> set (split_scan sep [] cs)" by simp
    then show ?thesis
    proof
      assume "p = cur" with Cons.prems show ?thesis by simp
    next
      assume "p \<in> set (split_scan sep [] cs)"
      then show ?thesis using Cons.IH[of "[]"] by simp
    qed
  next
    case False
    with Cons.prems have "p \<in> set (split_scan sep (cur @ [c]) cs)" by simp
    moreover from False Cons.prems have "sep \<notin> set (cur @ [c])" by auto
    ultimately show ?thesis using Cons.IH[of "cur @ [c]"] by blast
  qed
qed

lemma split_scan_field:
  "sep \<notin> set p \<Longrightarrow> split_scan sep cur (p @ rest) = split_scan sep (cur @ p) rest"
  by (induction p arbitrary: cur) auto

lemma rev_dropWhile_takeWhile:
  "rev (dropWhile P (rev xs)) @ rev (takeWhile P (rev xs)) = xs"
proof -
  have "rev (dropWhile P (rev xs)) @ rev (takeWhile P (rev xs))
          = rev (takeWhile P (rev xs) @ dropWhile P (rev xs))"
    by (simp only: rev_append)
  also have "\<dots> = rev (rev xs)" by (simp only: takeWhile_dropWhile_id)
  also have "\<dots> = xs" by simp
  finally show ?thesis .
qed

lemma strip_decomp:
  "\<exists>a b. s = a @ strip s @ b \<and> (\<forall>c\<in>set a. isspace c) \<and> (\<forall>c\<in>set b. isspace c)"
proof -
  let ?t = "dropWhile isspace s"
  let ?a = "takeWhile isspace s"
  let ?b = "rev (takeWhile isspace (rev ?t))"
  have t: "?t = strip s @ ?b"
    unfolding strip_def by (rule rev_dropWhile_takeWhile[symmetric])
  have "s = ?a @ ?t" by simp
  with t have "s = ?a @ strip s @ ?b" by simp
  moreover have "\<forall>c\<in>set ?a. isspace c" by (auto dest: set_takeWhileD)
  moreover have "\<forall>c\<in>set ?b. isspace c" by (auto dest: set_takeWhileD)
  ultimately show ?thesis by blast
qed

lemma strip_ends:
  assumes "strip s \<noteq> []"
  shows "\<not> isspace (hd (strip s))" and "\<not> isspace (last (strip s))"
proof -
  let ?t = "dropWhile isspace s"
  let ?d = "dropWhile isspace (rev ?t)"
  from assms have d: "?d \<noteq> []" by (simp add: strip_def)
  then have "\<not> isspace (hd ?d)" by (rule hd_dropWhile)
  then show "\<not> isspace (last (strip s))" by (simp add: strip_def last_rev)
  have t: "?t = strip s @ rev (takeWhile isspace (rev ?t))"
    unfolding strip_def by (rule rev_dropWhile_takeWhile[symmetric])
  with assms have "?t \<noteq> []" by (metis append_is_Nil_conv)
  then have "\<not> isspace (hd ?t)" by (rule hd_dropWhile)
  moreover from t assms have "hd ?t = hd (strip s)" by (metis hd_append2)
  ultimately show "\<not> isspace (hd (strip s))" by simp
qed

lemma set_strip: "set (strip s) \<subseteq> set s"
proof
  fix c assume "c \<in> set (strip s)"
  then have "c \<in> set (dropWhile isspace (rev (dropWhile isspace s)))" by (simp add: strip_def)
  then have "c \<in> set (rev (dropWhile isspace s))" by (rule set_dropWhileD)
  then have "c \<in> set (dropWhile isspace s)" by simp
  then show "c \<in> set s" by (rule set_dropWhileD)
qed

lemma clean_text_no_newline: "LF \<notin> set (clean_text text)"
proof -
  have "LF \<notin> set (replace_chr LF SP text)" by (auto simp: replace_chr_def)
  then show ?thesis using set_strip[of "replace_chr LF SP text"] by (auto simp: clean_text_def)
qed

lemma format_doc_loop_map:
  "format_doc_loop docs (printed, cleaned_docs) =
     (printed @ map (\<lambda>d. snippet_label @ take 100 (clean_text (page_content d))) docs,
      cleaned_docs @ map (\<lambda>d. clean_text (page_content d)) docs)"
  by (induction docs arbitrary: printed cleaned_docs) (simp_all add: Let_def)

lemma format_doc_join:
  "format_doc docs = join [LF, LF] (map (\<lambda>d. clean_text (page_content d)) docs)"
  by (simp add: format_doc_def format_doc_loop_map)

lemma comprehension_filter_map:
  "[f q. q \<leftarrow> xs, f q \<noteq> []] = filter (\<lambda>q. q \<noteq> []) (map f xs)"
  by (induction xs) auto

lemma parse_queries_filter:
  "parse_queries reply = filter (\<lambda>q. q \<noteq> []) (map strip (split_chr LF reply))"
  unfolding parse_queries_def by (rule comprehension_filter_map)

lemma join_split_chr: "join [sep] (split_chr sep s) = s"
  by (simp add: split_chr_def join_split_scan)

lemma split_chr_no_sep: "l \<in> set (split_chr sep s) \<Longrightarrow> sep \<notin> set l"
  unfolding split_chr_def by (rule split_scan_no_sep[of sep "[]"]) simp_all

lemma parse_queries_member:
  assumes "q \<in> set (parse_queries reply)"
  shows "q \<noteq> []" and "\<exists>l\<in>set (split_chr LF reply). q = strip l"
  using assms by (auto simp: parse_queries_filter)

lemma split_join_single: "sep \<notin> set p \<Longrightarrow> split_chr sep p = [p]"
  using split_scan_field[of sep p "[]" "[]"] by (simp add: split_chr_def)

lemma split_join_step:
  assumes "sep \<notin> set p"
  shows "split_chr sep (join [sep, sep] (p # q # ps)) = p # [] # split_chr sep (join [sep, sep] (q # ps))"
proof -
  have "split_scan sep [] (p @ (sep # sep # join [sep, sep] (q # ps)))
          = split_scan sep ([] @ p) (sep # sep # join [sep, sep] (q # ps))"
    using assms by (rule split_scan_field)
  then show ?thesis by (simp add: split_chr_def)
qed

lemma split_join_fields:
  assumes "cs \<noteq> []" and "\<forall>p\<in>set cs. sep \<notin> set p"
  shows "length (split_chr sep (join [sep, sep] cs)) = 2 * length cs - 1
         \<and> (\<forall>i<length cs. split_chr sep (join [sep, sep] cs) ! (2 * i) = cs ! i)
         \<and> (\<forall>i. Suc (2 * i) < 2 * length cs - 1 \<longrightarrow> split_chr sep (join [sep, sep] cs) ! Suc (2 * i) = [])"
  using assms
proof (induction cs rule: list_nonempty_induct)
  case (single p)
  then show ?case by (simp add: split_join_single)
next
  case (cons p ps)
  then obtain q qs where ps: "ps = q # qs" by (cases ps) auto
  let ?F = "split_chr sep (join [sep, sep] ps)"
  from cons.prems have p: "sep \<notin> set p" by simp
  have F: "split_chr sep (join [sep, sep] (p # ps)) = p # [] # ?F"
    unfolding ps using p by (rule split_join_step)
  from cons.IH cons.prems have len: "length ?F = 2 * length ps - 1"
    and ev: "\<And>i. i < length ps \<Longrightarrow> ?F ! (2 * i) = ps ! i"
    and od: "\<And>i. Suc (2 * i) < 2 * length ps - 1 \<Longrightarrow> ?F ! Suc (2 * i) = []"
    by simp_all
  have pos: "0 < length ps" using cons.hyps by simp
  have a: "length (p # [] # ?F) = 2 * length (p # ps) - 1" using len pos by simp
  have b: "(p # [] # ?F) ! (2 * i) = (p # ps) ! i" if "i < length (p # ps)" for i
  proof (cases i)
    case 0 then show ?thesis by simp
  next
    case (Suc j)
    with that have "j < length ps" by simp
    then have "?F ! (2 * j) = ps ! j" by (rule ev)
    with Suc show ?thesis by simp
  qed
  have c: "(p # [] # ?F) ! Suc (2 * i) = []" if "Suc (2 * i) < 2 * length (p # ps) - 1" for i
  proof (cases i)
    case 0 then show ?thesis by simp
  next
    case (Suc j)
    with that have "Suc (2 * j) < 2 * length ps - 1" by simp
    then have "?F ! Suc (2 * j) = []" by (rule od)
    with Suc show ?thesis by simp
  qed
  from a b c show ?case unfolding F by blast
qed

lemma count_join:
  "\<forall>p\<in>set cs. sep \<notin> set p \<Longrightarrow> count_list (join [sep, sep] cs) sep = 2 * (length cs - 1)"
  by (induction "[sep, sep]" cs rule: join.induct) auto

lemma clean_text_trimmed:
  "\<exists>a b.
      map (\<lambda>c. if c = LF then SP else c) text = a @ clean_text text @ b \<and>
      (\<forall>c\<in>set a. isspace c) \<and> (\<forall>c\<in>set b. isspace c) \<and>
      (clean_text text \<noteq> [] \<longrightarrow>
         \<not> isspace (hd (clean_text text)) \<and> \<not> isspace (last (clean_text text)))"
proof -
  let ?r = "map (\<lambda>c. if c = LF then SP else c) text"
  have c: "clean_text text = strip ?r" by (simp add: clean_text_def replace_chr_def)
  from strip_decomp[of ?r] obtain a b where
    "?r = a @ strip ?r @ b" "\<forall>c\<in>set a. isspace c" "\<forall>c\<in>set b. isspace c" by blast
  moreover have "strip ?r \<noteq> [] \<longrightarrow> \<not> isspace (hd (strip ?r)) \<and> \<not> isspace (last (strip ?r))"
    using strip_ends[of ?r] by blast
  ultimately show ?thesis unfolding c by blast
qed

text \<open>The reply and the passages used in the examples below.\<close>

lemma example_reply_fields:
  "split_chr LF (py ''1. a\<newline> b  \<newline>\<newline>'') = [py ''1. a'', py '' b  '', [], []]"
  by (simp add: split_chr_def py_def)

lemma example_reply_queries:
  "parse_queries (py ''1. a\<newline> b  \<newline>\<newline>'') = [py ''1. a'', py ''b'']"
  unfolding parse_queries_filter example_reply_fields
  by (simp add: strip_def isspace_def py_def)

lemma example_clean: "clean_text (py '' a\<newline>b '') = py ''a b''"
  by (simp add: clean_text_def replace_chr_def strip_def isspace_def py_def)

section \<open>The parser of the expansion reply\<close>

text \<open>
  C6: for every reply the parser returns the lines of the reply (the fields between
  line feeds, which joined by line feeds give the reply back), each trimmed of
  surrounding whitespace, without those that are empty after trimming, in the order of
  the reply. So every candidate is nonempty, starts and ends with a character that is not
  whitespace, and is a line of the reply up to surrounding whitespace.
\<close>

theorem parse_queries_lines:
  "parse_queries reply = filter (\<lambda>q. q \<noteq> []) (map strip (split_chr LF reply)) \<and>
   join [LF] (split_chr LF reply) = reply \<and>
   (\<forall>l\<in>set (split_chr LF reply). LF \<notin> set l) \<and>
   (\<forall>q\<in>set (parse_queries reply).
      q \<noteq> [] \<and> \<not> isspace (hd q) \<and> \<not> isspace (last q) \<and>
      (\<exists>l\<in>set (split_chr LF reply). \<exists>a b.
         l = a @ q @ b \<and> (\<forall>c\<in>set a. isspace c) \<and> (\<forall>c\<in>set b. isspace c)))"
proof (intro conjI ballI)
  show "parse_queries reply = filter (\<lambda>q. q \<noteq> []) (map strip (split_chr LF reply))"
    by (rule parse_queries_filter)
  show "join [LF] (split_chr LF reply) = reply" by (rule join_split_chr)
  show "LF \<notin> set l" if "l \<in> set (split_chr LF reply)" for l
    using that by (rule split_chr_no_sep)
next
  fix q assume q: "q \<in> set (parse_queries reply)"
  then show ne: "q \<noteq> []" by (rule parse_queries_member)
  from q obtain l where l: "l \<in> set (split_chr LF reply)" and ql: "q = strip l"
    using parse_queries_member(2) by blast
  from ne ql have "strip l \<noteq> []" by simp
  then have "\<not> isspace (hd (strip l))" and "\<not> isspace (last (strip l))"
    by (rule strip_ends)+
  then show "\<not> isspace (hd q)" and "\<not> isspace (last q)" using ql by simp_all
  from strip_decomp[of l] obtain a b where
    "l = a @ q @ b" "\<forall>c\<in>set a. isspace c" "\<forall>c\<in>set b. isspace c"
    unfolding ql by blast
  with l show "\<exists>l\<in>set (split_chr LF reply). \<exists>a b.
         l = a @ q @ b \<and> (\<forall>c\<in>set a. isspace c) \<and> (\<forall>c\<in>set b. isspace c)"
    by blast
qed

text \<open>The reply with a numbered line, an indented line and two empty lines.\<close>

theorem parse_queries_lines_witness:
  "py ''b'' \<in> set (parse_queries (py ''1. a\<newline> b  \<newline>\<newline>'')) \<and>
   py ''b'' \<noteq> [] \<and> \<not> isspace (hd (py ''b'')) \<and> \<not> isspace (last (py ''b'')) \<and>
   py '' b  '' \<in> set (split_chr LF (py ''1. a\<newline> b  \<newline>\<newline>'')) \<and>
   LF \<notin> set (py '' b  '')"
proof -
  let ?r = "py ''1. a\<newline> b  \<newline>\<newline>''"
  note t = parse_queries_lines[of ?r]
  have q: "py ''b'' \<in> set (parse_queries ?r)" by (simp add: example_reply_queries)
  have l: "py '' b  '' \<in> set (split_chr LF ?r)" by (simp add: example_reply_fields)
  from t have "\<forall>l\<in>set (split_chr LF ?r). LF \<notin> set l" by (elim conjE)
  then have n: "LF \<notin> set (py '' b  '')" using l by (rule bspec)
  from t have "\<forall>q\<in>set (parse_queries ?r).
      q \<noteq> [] \<and> \<not> isspace (hd q) \<and> \<not> isspace (last q) \<and>
      (\<exists>l\<in>set (split_chr LF ?r). \<exists>a b.
         l = a @ q @ b \<and> (\<forall>c\<in>set a. isspace c) \<and> (\<forall>c\<in>set b. isspace c))" by (elim conjE)
  then have "py ''b'' \<noteq> [] \<and> \<not> isspace (hd (py ''b'')) \<and> \<not> isspace (last (py ''b'')) \<and>
      (\<exists>l\<in>set (split_chr LF ?r). \<exists>a b.
         l = a @ py ''b'' @ b \<and> (\<forall>c\<in>set a. isspace c) \<and> (\<forall>c\<in>set b. isspace c))"
    using q by (rule bspec)
  with q l n show ?thesis by (elim conjE) (intro conjI)
qed

section \<open>The context block\<close>

text \<open>
  C7: for every list of passages \<open>format_doc\<close> returns the passages' normalized
  contents joined by two line feeds (a blank line). The normalized content is the
  content with every line feed replaced by one space and the whitespace at both ends
  removed: what is cut off at either end is whitespace only, and what is left neither
  starts nor ends with whitespace. On the empty list the result is the empty string.
\<close>

theorem format_doc_normalizes:
  "format_doc (docs :: 'm document list) = join [LF, LF] (map (\<lambda>d. clean_text (page_content d)) docs) \<and>
   (\<forall>d\<in>set docs. \<exists>a b.
      map (\<lambda>c. if c = LF then SP else c) (page_content d) = a @ clean_text (page_content d) @ b \<and>
      (\<forall>c\<in>set a. isspace c) \<and> (\<forall>c\<in>set b. isspace c) \<and>
      (clean_text (page_content d) \<noteq> [] \<longrightarrow>
         \<not> isspace (hd (clean_text (page_content d))) \<and>
         \<not> isspace (last (clean_text (page_content d))))) \<and>
   format_doc ([] :: 'm document list) = []"
proof (intro conjI ballI)
  show "format_doc docs = join [LF, LF] (map (\<lambda>d. clean_text (page_content d)) docs)"
    by (rule format_doc_join)
  show "format_doc ([] :: 'm document list) = []" by (simp add: format_doc_join)
  show "\<exists>a b.
      map (\<lambda>c. if c = LF then SP else c) (page_content d) = a @ clean_text (page_content d) @ b \<and>
      (\<forall>c\<in>set a. isspace c) \<and> (\<forall>c\<in>set b. isspace c) \<and>
      (clean_text (page_content d) \<noteq> [] \<longrightarrow>
         \<not> isspace (hd (clean_text (page_content d))) \<and>
         \<not> isspace (last (clean_text (page_content d))))" for d :: "'m document"
    by (rule clean_text_trimmed)
qed

text \<open>Two passages, the first with a line feed inside and spaces around.\<close>

theorem format_doc_normalizes_witness:
  "passage 1 '' a\<newline>b '' \<in> set [passage 1 '' a\<newline>b '', passage 2 ''c''] \<and>
   clean_text (page_content (passage 1 '' a\<newline>b '')) \<noteq> [] \<and>
   \<not> isspace (hd (clean_text (page_content (passage 1 '' a\<newline>b '')))) \<and>
   \<not> isspace (last (clean_text (page_content (passage 1 '' a\<newline>b '')))) \<and>
   format_doc [passage 1 '' a\<newline>b '', passage 2 ''c''] = py ''a b\<newline>\<newline>c''"
proof -
  let ?d = "passage 1 '' a\<newline>b ''"
  let ?docs = "[?d, passage 2 ''c'']"
  note t = format_doc_normalizes[of ?docs]
  have m: "?d \<in> set ?docs" by simp
  have ne: "clean_text (page_content ?d) \<noteq> []"
    by (simp add: passage_def example_clean) (simp add: py_def)
  from t have "\<forall>d\<in>set ?docs. \<exists>a b.
      map (\<lambda>c. if c = LF then SP else c) (page_content d) = a @ clean_text (page_content d) @ b \<and>
      (\<forall>c\<in>set a. isspace c) \<and> (\<forall>c\<in>set b. isspace c) \<and>
      (clean_text (page_content d) \<noteq> [] \<longrightarrow>
         \<not> isspace (hd (clean_text (page_content d))) \<and>
         \<not> isspace (last (clean_text (page_content d))))" by (elim conjE)
  then have "\<exists>a b.
      map (\<lambda>c. if c = LF then SP else c) (page_content ?d) = a @ clean_text (page_content ?d) @ b \<and>
      (\<forall>c\<in>set a. isspace c) \<and> (\<forall>c\<in>set b. isspace c) \<and>
      (clean_text (page_content ?d) \<noteq> [] \<longrightarrow>
         \<not> isspace (hd (clean_text (page_content ?d))) \<and>
         \<not> isspace (last (clean_text (page_content ?d))))" using m by (rule bspec)
  with ne have e: "\<not> isspace (hd (clean_text (page_content ?d)))"
    "\<not> isspace (last (clean_text (page_content ?d)))" by blast+
  from t have "format_doc ?docs = join [LF, LF] (map (\<lambda>d. clean_text (page_content d)) ?docs)"
    by (elim conjE)
  also have "\<dots> = py ''a b\<newline>\<newline>c''"
    by (simp add: passage_def example_clean) (simp add: clean_text_def replace_chr_def strip_def isspace_def py_def)
  finally have f: "format_doc ?docs = py ''a b\<newline>\<newline>c''" .
  from m ne e f show ?thesis by (intro conjI)
qed

text \<open>
  C10: a cleaned passage contains no line feed, and neither does a candidate query of
  the parser. Hence every line feed of the context block belongs to a separator: the
  block has two line feeds per separator and no other, and cutting a nonempty block at
  its line feeds gives back each cleaned passage whole, at the even positions, with an
  empty field between two neighbours.
\<close>

theorem newline_only_between_passages:
  "LF \<notin> set (clean_text text) \<and>
   (\<forall>q\<in>set (parse_queries reply). LF \<notin> set q) \<and>
   count_list (format_doc docs) LF = 2 * (length docs - 1) \<and>
   (docs \<noteq> [] \<longrightarrow>
      length (split_chr LF (format_doc docs)) = 2 * length docs - 1 \<and>
      (\<forall>i<length docs.
         split_chr LF (format_doc docs) ! (2 * i) = clean_text (page_content (docs ! i))) \<and>
      (\<forall>i. Suc (2 * i) < 2 * length docs - 1 \<longrightarrow>
         split_chr LF (format_doc docs) ! Suc (2 * i) = []))"
proof (intro conjI ballI impI)
  let ?cs = "map (\<lambda>d. clean_text (page_content d)) docs"
  have free: "\<forall>p\<in>set ?cs. LF \<notin> set p" by (auto simp: clean_text_no_newline)
  show "LF \<notin> set (clean_text text)" by (rule clean_text_no_newline)
  show "LF \<notin> set q" if "q \<in> set (parse_queries reply)" for q
  proof -
    from that obtain l where l: "l \<in> set (split_chr LF reply)" and q: "q = strip l"
      using parse_queries_member(2) by blast
    from l have "LF \<notin> set l" by (rule split_chr_no_sep)
    then show ?thesis using set_strip[of l] q by auto
  qed
  show "count_list (format_doc docs) LF = 2 * (length docs - 1)"
    using count_join[OF free] by (simp add: format_doc_join)
  assume "docs \<noteq> []"
  then have "?cs \<noteq> []" by simp
  from split_join_fields[OF this free]
  have len: "length (split_chr LF (join [LF, LF] ?cs)) = 2 * length ?cs - 1"
    and ev: "\<forall>i<length ?cs. split_chr LF (join [LF, LF] ?cs) ! (2 * i) = ?cs ! i"
    and od: "\<forall>i. Suc (2 * i) < 2 * length ?cs - 1 \<longrightarrow> split_chr LF (join [LF, LF] ?cs) ! Suc (2 * i) = []"
    by blast+
  from len show "length (split_chr LF (format_doc docs)) = 2 * length docs - 1"
    by (simp add: format_doc_join)
  from ev show "\<forall>i<length docs.
         split_chr LF (format_doc docs) ! (2 * i) = clean_text (page_content (docs ! i))"
    by (simp add: format_doc_join)
  from od show "\<forall>i. Suc (2 * i) < 2 * length docs - 1 \<longrightarrow>
         split_chr LF (format_doc docs) ! Suc (2 * i) = []"
    by (simp add: format_doc_join)
qed

text \<open>The same reply and the same two passages.\<close>

theorem newline_only_between_passages_witness:
  "py ''b'' \<in> set (parse_queries (py ''1. a\<newline> b  \<newline>\<newline>'')) \<and>
   LF \<notin> set (py ''b'') \<and>
   [passage 1 '' a\<newline>b '', passage 2 ''c''] \<noteq> [] \<and>
   length (split_chr LF (format_doc [passage 1 '' a\<newline>b '', passage 2 ''c'']))
     = 2 * length [passage 1 '' a\<newline>b '', passage 2 ''c''] - 1 \<and>
   (1 :: nat) < length [passage 1 '' a\<newline>b '', passage 2 ''c''] \<and>
   split_chr LF (format_doc [passage 1 '' a\<newline>b '', passage 2 ''c'']) ! (2 * 1)
     = clean_text (page_content ([passage 1 '' a\<newline>b '', passage 2 ''c''] ! 1)) \<and>
   Suc (2 * 0) < 2 * length [passage 1 '' a\<newline>b '', passage 2 ''c''] - 1 \<and>
   split_chr LF (format_doc [passage 1 '' a\<newline>b '', passage 2 ''c'']) ! Suc (2 * 0) = []"
proof -
  let ?r = "py ''1. a\<newline> b  \<newline>\<newline>''"
  let ?docs = "[passage 1 '' a\<newline>b '', passage 2 ''c'']"
  note t = newline_only_between_passages[of "[]" ?r ?docs]
  have q: "py ''b'' \<in> set (parse_queries ?r)" by (simp add: example_reply_queries)
  have ne: "?docs \<noteq> []" by simp
  have i: "(1 :: nat) < length ?docs" by simp
  have j: "Suc (2 * 0) < 2 * length ?docs - 1" by simp
  from t have "\<forall>q\<in>set (parse_queries ?r). LF \<notin> set q" by (elim conjE)
  then have a: "LF \<notin> set (py ''b'')" using q by (rule bspec)
  from t have "?docs \<noteq> [] \<longrightarrow>
      length (split_chr LF (format_doc ?docs)) = 2 * length ?docs - 1 \<and>
      (\<forall>i<length ?docs.
         split_chr LF (format_doc ?docs) ! (2 * i) = clean_text (page_content (?docs ! i))) \<and>
      (\<forall>i. Suc (2 * i) < 2 * length ?docs - 1 \<longrightarrow>
         split_chr LF (format_doc ?docs) ! Suc (2 * i) = [])" by (elim conjE)
  then have b: "length (split_chr LF (format_doc ?docs)) = 2 * length ?docs - 1"
    and c: "\<forall>i<length ?docs.
         split_chr LF (format_doc ?docs) ! (2 * i) = clean_text (page_content (?docs ! i))"
    and d: "\<forall>i. Suc (2 * i) < 2 * length ?docs - 1 \<longrightarrow>
         split_chr LF (format_doc ?docs) ! Suc (2 * i) = []"
    using ne by blast+
  from c i have c1: "split_chr LF (format_doc ?docs) ! (2 * 1)
     = clean_text (page_content (?docs ! 1))" by blast
  from d j have d0: "split_chr LF (format_doc ?docs) ! Suc (2 * 0) = []" by blast
  from q a ne b i c1 j d0 show ?thesis by (intro conjI)
qed

section \<open>The identity key of the deduplication\<close>

lemma merge_unique_first:
  "d \<in> set (merge_unique ls) \<Longrightarrow>
     find (\<lambda>e. page_content e = page_content d) (concat ls) = Some d"
  unfolding merge_unique_concat by (rule unique_loop_first)

lemma merge_unique_append:
  "merge_unique (ls1 @ ls2) =
     merge_unique ls1 @
     filter (\<lambda>d. page_content d \<notin> page_content ` set (concat ls1)) (merge_unique ls2)"
proof -
  have "merge_unique (ls1 @ ls2) = unique_loop (concat ls1 @ concat ls2) {} []"
    by (simp add: merge_unique_concat)
  also have "\<dots> = unique_loop (concat ls1) {} [] @
      unique_loop (concat ls2) ({} \<union> page_content ` set (concat ls1)) []"
    by (rule unique_loop_append)
  also have "unique_loop (concat ls2) ({} \<union> page_content ` set (concat ls1)) []
      = filter (\<lambda>d. page_content d \<notin> page_content ` set (concat ls1))
          (unique_loop (concat ls2) {} [])"
    by (rule unique_loop_more_seen)
  finally show ?thesis by (simp add: merge_unique_concat)
qed

lemma example_same_content:
  "merge_unique [[passage 1 ''a''], [passage 2 ''a'']] = [passage 1 ''a'']"
  by (simp add: merge_unique_def passage_def py_def)

text \<open>
  C1, as the code has it: the identity key of a passage is its exact content, not the
  trimmed content. In the deduplicated list the contents are pairwise different, every
  content of the input occurs, the entries stand in the order of the input, and each
  entry is the first passage of the input with its content. Passages whose contents
  differ, be it only in surrounding whitespace, stay separate entries. The output is the
  first two entries of the deduplicated list.
\<close>

theorem aggregator_exact_content_key:
  "distinct (map page_content (merge_unique doc_lists)) \<and>
   page_content ` set (merge_unique doc_lists) = page_content ` set (concat doc_lists) \<and>
   subseq (merge_unique doc_lists) (concat doc_lists) \<and>
   (\<forall>d\<in>set (merge_unique doc_lists).
      find (\<lambda>e. page_content e = page_content d) (concat doc_lists) = Some d) \<and>
   ResultAggregator doc_lists = take 2 (merge_unique doc_lists)"
proof (intro conjI ballI)
  show "distinct (map page_content (merge_unique doc_lists))" by (rule merge_unique_distinct)
  show "page_content ` set (merge_unique doc_lists) = page_content ` set (concat doc_lists)"
    by (rule merge_unique_contents)
  show "subseq (merge_unique doc_lists) (concat doc_lists)" by (rule merge_unique_subseq)
  show "find (\<lambda>e. page_content e = page_content d) (concat doc_lists) = Some d"
    if "d \<in> set (merge_unique doc_lists)" for d
    using that by (rule merge_unique_first)
  show "ResultAggregator doc_lists = take 2 (merge_unique doc_lists)"
    by (rule ResultAggregator_def)
qed

text \<open>Two lists that return the same content: the passage of the first list is kept.\<close>

theorem aggregator_exact_content_key_witness:
  "passage 1 ''a'' \<in> set (merge_unique [[passage 1 ''a''], [passage 2 ''a'']]) \<and>
   find (\<lambda>e. page_content e = page_content (passage 1 ''a''))
     (concat [[passage 1 ''a''], [passage 2 ''a'']]) = Some (passage 1 ''a'')"
proof -
  let ?ls = "[[passage 1 ''a''], [passage 2 ''a'']]"
  note t = aggregator_exact_content_key[of ?ls]
  have m: "passage 1 ''a'' \<in> set (merge_unique ?ls)"
    unfolding example_same_content by simp
  from t have "\<forall>d\<in>set (merge_unique ?ls).
      find (\<lambda>e. page_content e = page_content d) (concat ?ls) = Some d" by (elim conjE)
  then have "find (\<lambda>e. page_content e = page_content (passage 1 ''a'')) (concat ?ls)
      = Some (passage 1 ''a'')" using m by (rule bspec)
  with m show ?thesis by (intro conjI)
qed

text \<open>
  C1 as stated fails: the contents \<open>a\<close> followed by a space and \<open>a\<close> are equal
  after trimming, and both passages are in the output.
\<close>

theorem trimmed_key_counterexample:
  "strip (page_content (passage 1 ''a '')) = strip (page_content (passage 2 ''a'')) \<and>
   ResultAggregator [[passage 1 ''a ''], [passage 2 ''a'']] = [passage 1 ''a '', passage 2 ''a'']"
  by (simp add: ResultAggregator_def merge_unique_def passage_def py_def strip_def isspace_def)

section \<open>The position of a shared passage\<close>

text \<open>
  C3, as the code has it: when a passage list \<open>A\<close> and a later list \<open>B\<close> share a content,
  the deduplicated list holds that content exactly once, as the first passage of the
  input with that content, at the position it had when the scan of \<open>A\<close> ended; the
  lists after \<open>A\<close> do not move it. The output, cut to two entries, holds that content
  at no other position, and holds it there when the position is below two.
\<close>

theorem shared_passage_first_occurrence:
  assumes "p \<in> set A" and "q \<in> set B" and "page_content q = page_content p"
  shows "\<exists>i<length (merge_unique (pre @ [A])).
           page_content (merge_unique (pre @ [A]) ! i) = page_content p \<and>
           i < length (merge_unique (pre @ A # mid @ B # post)) \<and>
           merge_unique (pre @ A # mid @ B # post) ! i = merge_unique (pre @ [A]) ! i \<and>
           find (\<lambda>e. page_content e = page_content p) (concat (pre @ A # mid @ B # post))
             = Some (merge_unique (pre @ [A]) ! i) \<and>
           (\<forall>j<length (merge_unique (pre @ A # mid @ B # post)).
              page_content (merge_unique (pre @ A # mid @ B # post) ! j) = page_content p
                \<longrightarrow> j = i) \<and>
           (\<forall>j<length (ResultAggregator (pre @ A # mid @ B # post)).
              page_content (ResultAggregator (pre @ A # mid @ B # post) ! j) = page_content p
                \<longrightarrow> j = i) \<and>
           (i < 2 \<longrightarrow>
              i < length (ResultAggregator (pre @ A # mid @ B # post)) \<and>
              ResultAggregator (pre @ A # mid @ B # post) ! i = merge_unique (pre @ [A]) ! i)"
proof -
  let ?L = "pre @ A # mid @ B # post"
  let ?U1 = "merge_unique (pre @ [A])"
  let ?U = "merge_unique ?L"
  let ?rest = "filter (\<lambda>d. page_content d \<notin> page_content ` set (concat (pre @ [A])))
                 (merge_unique (mid @ B # post))"
  have "?L = (pre @ [A]) @ (mid @ B # post)" by simp
  then have "?U = merge_unique ((pre @ [A]) @ (mid @ B # post))" by (rule arg_cong)
  then have U: "?U = ?U1 @ ?rest" by (simp only: merge_unique_append)
  from assms(1) have "page_content p \<in> page_content ` set (concat (pre @ [A]))" by auto
  then have "page_content p \<in> page_content ` set ?U1" by (simp only: merge_unique_contents)
  then obtain d where d: "d \<in> set ?U1" and dp: "page_content d = page_content p" by auto
  from d obtain i where i: "i < length ?U1" and di: "?U1 ! i = d"
    by (auto simp: in_set_conv_nth)
  from U i have iU: "i < length ?U" by simp
  from U i have same: "?U ! i = ?U1 ! i" by (simp add: nth_append)
  have c1: "page_content (?U1 ! i) = page_content p" using di dp by simp
  have "?U ! i \<in> set ?U" using iU by (rule nth_mem)
  then have "find (\<lambda>e. page_content e = page_content (?U ! i)) (concat ?L) = Some (?U ! i)"
    by (rule merge_unique_first)
  then have c4: "find (\<lambda>e. page_content e = page_content p) (concat ?L) = Some (?U1 ! i)"
    by (simp only: same c1)
  have dist: "distinct (map page_content ?U)" by (rule merge_unique_distinct)
  have uniq: "j = i" if j: "j < length ?U" and jp: "page_content (?U ! j) = page_content p" for j
  proof -
    from j jp iU same c1 have e: "map page_content ?U ! j = map page_content ?U ! i" by simp
    from j iU have "j < length (map page_content ?U)" and "i < length (map page_content ?U)"
      by simp_all
    with dist e show ?thesis using nth_eq_iff_index_eq by blast
  qed
  have c5: "\<forall>j<length ?U. page_content (?U ! j) = page_content p \<longrightarrow> j = i"
    using uniq by blast
  have c6: "\<forall>j<length (ResultAggregator ?L).
              page_content (ResultAggregator ?L ! j) = page_content p \<longrightarrow> j = i"
  proof (intro allI impI)
    fix j assume j: "j < length (ResultAggregator ?L)"
      and jp: "page_content (ResultAggregator ?L ! j) = page_content p"
    from j have j2: "j < 2" and jU: "j < length ?U" by (simp_all add: ResultAggregator_def)
    from j2 have "ResultAggregator ?L ! j = ?U ! j" by (simp add: ResultAggregator_def)
    with jp have "page_content (?U ! j) = page_content p" by simp
    with jU show "j = i" by (rule uniq)
  qed
  have c7: "i < 2 \<longrightarrow> i < length (ResultAggregator ?L) \<and> ResultAggregator ?L ! i = ?U1 ! i"
    using iU same by (simp add: ResultAggregator_def)
  from i c1 iU same c4 c5 c6 c7 show ?thesis by blast
qed

text \<open>The second passage of the first list is also the first passage of the second.\<close>

theorem shared_passage_first_occurrence_witness:
  "passage 1 ''p'' \<in> set [passage 1 ''x'', passage 1 ''p''] \<and>
   passage 2 ''p'' \<in> set [passage 2 ''p'', passage 2 ''y''] \<and>
   page_content (passage 2 ''p'') = page_content (passage 1 ''p'') \<and>
   (\<exists>i<length (merge_unique ([] @ [[passage 1 ''x'', passage 1 ''p'']])).
      page_content (merge_unique ([] @ [[passage 1 ''x'', passage 1 ''p'']]) ! i)
        = page_content (passage 1 ''p'') \<and>
      i < length (merge_unique
            ([] @ [passage 1 ''x'', passage 1 ''p''] # [] @ [passage 2 ''p'', passage 2 ''y''] # [])) \<and>
      merge_unique
            ([] @ [passage 1 ''x'', passage 1 ''p''] # [] @ [passage 2 ''p'', passage 2 ''y''] # []) ! i
        = merge_unique ([] @ [[passage 1 ''x'', passage 1 ''p'']]) ! i \<and>
      i < 2)"
proof -
  let ?p = "passage 1 ''p''" and ?q = "passage 2 ''p''"
  let ?A = "[passage 1 ''x'', passage 1 ''p'']" and ?B = "[passage 2 ''p'', passage 2 ''y'']"
  have a: "?p \<in> set ?A" by simp
  have b: "?q \<in> set ?B" by simp
  have c: "page_content ?q = page_content ?p" by (simp add: passage_def)
  have l: "length (merge_unique ([] @ [?A])) = 2"
    by (simp add: merge_unique_def passage_def py_def)
  from shared_passage_first_occurrence[OF a b c, of "[]" "[]" "[]"] l
  have "\<exists>i<length (merge_unique ([] @ [?A])).
      page_content (merge_unique ([] @ [?A]) ! i) = page_content ?p \<and>
      i < length (merge_unique ([] @ ?A # [] @ ?B # [])) \<and>
      merge_unique ([] @ ?A # [] @ ?B # []) ! i = merge_unique ([] @ [?A]) ! i \<and>
      i < 2"
    by auto
  with a b c show ?thesis by (intro conjI)
qed

text \<open>
  C3 as stated fails: when two other contents come first, the passage shared by the
  second and third list is cut off and the output does not contain it.
\<close>

theorem shared_passage_truncated_counterexample:
  "passage 2 ''p'' \<in> set [passage 2 ''p''] \<and>
   passage 3 ''p'' \<in> set [passage 3 ''p''] \<and>
   page_content (passage 3 ''p'') = page_content (passage 2 ''p'') \<and>
   ResultAggregator [[passage 1 ''x'', passage 1 ''y''], [passage 2 ''p''], [passage 3 ''p'']]
     = [passage 1 ''x'', passage 1 ''y''] \<and>
   page_content (passage 2 ''p'') \<notin> page_content `
     set (ResultAggregator
            [[passage 1 ''x'', passage 1 ''y''], [passage 2 ''p''], [passage 3 ''p'']])"
  by (simp add: ResultAggregator_def merge_unique_def passage_def py_def)

section \<open>Whitespace variants in the context\<close>


section \<open>The pipeline\<close>

lemma search_loop_retrieve_each:
  "search_loop qs k vector_store all_docs w =
     (case retrieve_each qs k vector_store w of
        (Inl e, w') \<Rightarrow> (Inl e, w')
      | (Inr doc_lists, w') \<Rightarrow> (Inr (extend_all doc_lists all_docs), w'))"
proof (induction qs arbitrary: all_docs w)
  case Nil show ?case by simp
next
  case (Cons q qs)
  show ?case
  proof (cases "vector_store q k w")
    case (Pair r w')
    show ?thesis
    proof (cases r)
      case (Inl e)
      with Pair show ?thesis by (simp add: CandidateRetriever_def)
    next
      case (Inr docs)
      with Pair show ?thesis
        by (simp add: CandidateRetriever_def Cons.IH[of "all_docs @ docs" w']
                 split: prod.splits sum.splits)
    qed
  qed
qed

lemma retrieve_documents_stages:
  "retrieve_documents question k llm vector_store w =
     (case expand_query question llm w of
        (Inl e, w1) \<Rightarrow> (Inl e, w1)
      | (Inr candidates, w1) \<Rightarrow>
          (case retrieve_each candidates k vector_store w1 of
             (Inl e, w2) \<Rightarrow> (Inl e, w2)
           | (Inr doc_lists, w2) \<Rightarrow> (Inr (ResultAggregator doc_lists), w2)))"
  by (simp add: retrieve_documents_def search_loop_retrieve_each ResultAggregator_def
        merge_unique_def split: prod.splits sum.splits)

text \<open>
  C2, as the code has it: when the reply of the expansion parses to no candidate, the
  pipeline goes on with zero candidates. Whatever the vector store is, it is not called:
  the retrieved list is empty, the world is the one the expansion left, and the answer
  is generated from the empty context.
\<close>

theorem empty_expansion_skips_retrieval:
  assumes "llm (expand_prompt question) w = (Inr reply, w1)"
    and "parse_queries reply = []"
  shows "retrieve_documents question k llm vector_store w = (Inr [], w1) \<and>
         answer_question question llm vector_store w = llm (prompt [] question) w1"
proof -
  from assms have e: "expand_query question llm w = (Inr [], w1)"
    by (simp add: expand_query_def)
  have r: "retrieve_documents question k' llm vector_store w = (Inr [], w1)" for k'
    by (simp add: retrieve_documents_def e)
  have "answer_question question llm vector_store w = llm (prompt [] question) w1"
    by (simp add: answer_question_def rag_chain_def r format_doc_def)
  with r show ?thesis by simp
qed

text \<open>The model that replies with the empty string, and the recording store.\<close>

theorem empty_expansion_skips_retrieval_witness:
  "silent_llm (expand_prompt (py ''q'')) [] = (Inr [], []) \<and>
   parse_queries [] = [] \<and>
   retrieve_documents (py ''q'') 2 silent_llm recording_store [] = (Inr [], []) \<and>
   answer_question (py ''q'') silent_llm recording_store [] = silent_llm (prompt [] (py ''q'')) []"
proof -
  have a: "silent_llm (expand_prompt (py ''q'')) [] = (Inr [], [])" by (simp add: silent_llm_def)
  have b: "parse_queries [] = []" by (simp add: parse_queries_def split_chr_def strip_def)
  note t = empty_expansion_skips_retrieval[where llm = silent_llm and question = "py ''q''"
      and w = "[]" and reply = "[]" and ?w1.0 = "[]" and k = 2 and vector_store = recording_store]
  have c: "retrieve_documents (py ''q'') 2 silent_llm recording_store [] = (Inr [], [])"
    by (rule t[OF a b, THEN conjunct1])
  have d: "answer_question (py ''q'') silent_llm recording_store [] = silent_llm (prompt [] (py ''q'')) []"
    by (rule t[OF a b, THEN conjunct2])
  from a b c d show ?thesis by (intro conjI)
qed

text \<open>
  C2 as stated fails: with the empty reply the store records no search, whereas a search
  for the question as the only candidate would record the question and return a passage.
\<close>

theorem empty_expansion_counterexample:
  "expand_query (py ''q'') silent_llm [] = (Inr [], []) \<and>
   retrieve_documents (py ''q'') 2 silent_llm recording_store [] = (Inr [], []) \<and>
   search_loop [py ''q''] 2 recording_store [] []
     = (Inr [\<lparr>page_content = py ''q'', metadata = 0\<rparr>], [py ''q''])"
  by (simp add: retrieve_documents_def expand_query_def silent_llm_def recording_store_def
        parse_queries_def split_chr_def strip_def)

section \<open>The answer operation as a composition of stages\<close>

text \<open>
  The stages of the code against the stages written from the specification: the
  deduplication loop is the first-sight scan with the content itself as key,
  \<open>format_doc\<close> is the formatter, \<open>expand_query\<close> is the expander with the code's
  instruction.
\<close>

lemma unique_loop_first_sight: "unique_loop ds seen [] = first_sight (\<lambda>c. c) seen ds"
proof (induction ds arbitrary: seen)
  case Nil show ?case by simp
next
  case (Cons d ds)
  show ?case
    using Cons.IH[of seen] Cons.IH[of "insert (page_content d) seen"]
      unique_loop_Cons[of d ds seen]
    by (cases "page_content d \<in> seen") simp_all
qed

lemma ResultAggregator_spec: "ResultAggregator doc_lists = SpecAggregator (\<lambda>c. c) 2 doc_lists"
  by (simp add: ResultAggregator_def SpecAggregator_def merge_unique_concat
        unique_loop_first_sight)

lemma format_doc_spec: "format_doc docs = ContextFormatter docs"
  by (simp add: format_doc_join ContextFormatter_def clean_text_def replace_chr_def)

lemma expand_query_spec:
  "expand_query question llm w = QueryExpander expand_prompt question llm w"
  by (simp add: expand_query_def QueryExpander_def parse_queries_filter
        split: prod.splits sum.splits)

lemma search_loop_world:
  assumes "\<And>q v. snd (vector_store q k v) = v"
  shows "snd (search_loop qs k vector_store all_docs w) = w"
proof (induction qs arbitrary: all_docs)
  case Nil show ?case by simp
next
  case (Cons q qs)
  obtain r where r: "vector_store q k w = (r, w)"
    using assms[of q w] by (cases "vector_store q k w") simp
  show ?case
  proof (cases r)
    case (Inl e) with r show ?thesis by simp
  next
    case (Inr docs) with r Cons.IH[of "all_docs @ docs"] show ?thesis by simp
  qed
qed

lemma answer_question_world:
  assumes llm: "\<And>m v. snd (llm m v) = v"
    and vs: "\<And>q k v. snd (vector_store q k v) = v"
  shows "snd (answer_question question llm vector_store w) = w"
proof -
  obtain r where r: "llm (expand_prompt question) w = (r, w)"
    using llm[of "expand_prompt question" w] by (cases "llm (expand_prompt question) w") simp
  show ?thesis
  proof (cases r)
    case (Inl e)
    with r show ?thesis
      by (simp add: answer_question_def rag_chain_def retrieve_documents_def expand_query_def)
  next
    case (Inr reply)
    with r have e: "expand_query question llm w = (Inr (parse_queries reply), w)"
      by (simp add: expand_query_def)
    obtain s where s: "search_loop (parse_queries reply) 2 vector_store [] w = (s, w)"
      using search_loop_world[of vector_store 2 "parse_queries reply" "[]" w, OF vs]
      by (cases "search_loop (parse_queries reply) 2 vector_store [] w") simp
    show ?thesis
    proof (cases s)
      case (Inl e')
      with s e show ?thesis
        by (simp add: answer_question_def rag_chain_def retrieve_documents_def)
    next
      case (Inr all_docs)
      with s e show ?thesis
        by (simp add: answer_question_def rag_chain_def retrieve_documents_def llm)
    qed
  qed
qed

lemma answer_question_stages:
  "answer_question question llm vector_store w
     = answer_composition keep_candidates (\<lambda>c. c) expand_prompt prompt
         question llm vector_store w"
  by (simp add: answer_question_def rag_chain_def answer_composition_def
        retrieve_documents_stages expand_query_spec format_doc_spec ResultAggregator_spec
        keep_candidates_def AnswerGenerator_def split: prod.splits sum.splits)

lemma fallback_unused:
  assumes "fst (QueryExpander instruction question llm w) \<noteq> Inr []"
  shows "answer_composition sole_candidate_fallback key instruction template
           question llm vector_store w
         = answer_composition keep_candidates key instruction template
             question llm vector_store w"
proof (cases "QueryExpander instruction question llm w")
  case (Pair r w1)
  show ?thesis
  proof (cases r)
    case (Inl e)
    with Pair show ?thesis by (simp add: answer_composition_def)
  next
    case (Inr candidates)
    with Pair assms have "candidates \<noteq> []" by simp
    with Pair Inr show ?thesis
      by (simp add: answer_composition_def sole_candidate_fallback_def keep_candidates_def)
  qed
qed

text \<open>The runs used in the examples below.\<close>

lemma example_x_candidates: "parse_queries (py ''x'') = [py ''x'']"
  by (simp add: parse_queries_filter split_chr_def strip_def isspace_def py_def)

lemma example_fallback_code:
  "answer_question (py ''q'') silent_llm recording_store [] = (Inr [], [])"
  by (simp add: answer_question_def rag_chain_def retrieve_documents_def expand_query_def
        silent_llm_def parse_queries_def split_chr_def strip_def)

lemma example_fallback_spec:
  "answer_spec expand_prompt prompt (py ''q'') silent_llm recording_store []
     = (Inr [], [py ''q''])"
  by (simp add: answer_spec_def answer_composition_def QueryExpander_def silent_llm_def
        split_chr_def strip_def sole_candidate_fallback_def CandidateRetriever_def
        recording_store_def AnswerGenerator_def)

lemma example_key_code:
  "answer_question (py ''q'') repeating_llm variant_store ()
     = (Inr (system_prefix @ py ''a\<newline>\<newline>a'' @ system_suffix), ())"
  by (simp add: answer_question_def rag_chain_def retrieve_documents_def expand_query_def
        expand_prompt_def repeating_llm_def example_x_candidates variant_store_def
        passage_def prompt_def)
     (simp add: format_doc_join clean_text_def replace_chr_def strip_def isspace_def py_def)

lemma example_key_spec:
  "answer_spec expand_prompt prompt (py ''q'') repeating_llm variant_store ()
     = (Inr (system_prefix @ py ''a'' @ system_suffix), ())"
  by (simp add: answer_spec_def answer_composition_def QueryExpander_def expand_prompt_def
        repeating_llm_def example_x_candidates[unfolded parse_queries_filter]
        sole_candidate_fallback_def CandidateRetriever_def variant_store_def
        SpecAggregator_def passage_def ContextFormatter_def AnswerGenerator_def prompt_def)
     (simp add: py_def strip_def isspace_def)

text \<open>
  C8, as the code has it: the answer operation equals the composition of the stages
  that the specification names, a failure of a stage ending the run, where the candidate
  list is passed on as it is (no fallback for the empty list) and the aggregation keys
  on the content itself. When the expansion fails or yields a candidate, this is also
  the composition with the fallback. No state is carried between calls: when the two
  services leave the world as it is, so does a call, and a later call returns what it
  would have returned without the earlier one.
\<close>

theorem answer_question_composition:
  "answer_question question llm vector_store w
     = answer_composition keep_candidates (\<lambda>c. c) expand_prompt prompt
         question llm vector_store w \<and>
   (fst (expand_query question llm w) \<noteq> Inr [] \<longrightarrow>
      answer_question question llm vector_store w
        = answer_composition sole_candidate_fallback (\<lambda>c. c) expand_prompt prompt
            question llm vector_store w) \<and>
   ((\<forall>m v. snd (llm m v) = v) \<and> (\<forall>q k v. snd (vector_store q k v) = v) \<longrightarrow>
      snd (answer_question question llm vector_store w) = w \<and>
      answer_question question' llm vector_store
          (snd (answer_question question llm vector_store w))
        = answer_question question' llm vector_store w)"
proof (intro conjI impI)
  show "answer_question question llm vector_store w
     = answer_composition keep_candidates (\<lambda>c. c) expand_prompt prompt
         question llm vector_store w"
    by (rule answer_question_stages)
next
  assume "fst (expand_query question llm w) \<noteq> Inr []"
  then have "fst (QueryExpander expand_prompt question llm w) \<noteq> Inr []"
    unfolding expand_query_spec .
  then have "answer_composition sole_candidate_fallback (\<lambda>c. c) expand_prompt prompt
           question llm vector_store w
         = answer_composition keep_candidates (\<lambda>c. c) expand_prompt prompt
             question llm vector_store w"
    by (rule fallback_unused)
  then show "answer_question question llm vector_store w
        = answer_composition sole_candidate_fallback (\<lambda>c. c) expand_prompt prompt
            question llm vector_store w"
    by (simp only: answer_question_stages)
next
  assume h: "(\<forall>m v. snd (llm m v) = v) \<and> (\<forall>q k v. snd (vector_store q k v) = v)"
  then have a: "\<And>m v. snd (llm m v) = v" and b: "\<And>q k v. snd (vector_store q k v) = v"
    by blast+
  show s: "snd (answer_question question llm vector_store w) = w"
    using a b by (rule answer_question_world)
  show "answer_question question' llm vector_store
          (snd (answer_question question llm vector_store w))
        = answer_question question' llm vector_store w"
    by (simp only: s)
qed

text \<open>
  The model that answers the expansion with the line \<open>x\<close>, and the store of two
  passages; both leave the world as it is.
\<close>

theorem answer_question_composition_witness:
  "(\<forall>m v. snd (repeating_llm m (v :: nat)) = v) \<and>
   (\<forall>q k v. snd (variant_store q k (v :: nat)) = v) \<and>
   fst (expand_query (py ''q'') repeating_llm (7 :: nat)) \<noteq> Inr [] \<and>
   answer_question (py ''q'') repeating_llm variant_store (7 :: nat)
     = answer_composition sole_candidate_fallback (\<lambda>c. c) expand_prompt prompt
         (py ''q'') repeating_llm variant_store 7 \<and>
   snd (answer_question (py ''q'') repeating_llm variant_store (7 :: nat)) = 7 \<and>
   answer_question (py ''r'') repeating_llm variant_store
       (snd (answer_question (py ''q'') repeating_llm variant_store (7 :: nat)))
     = answer_question (py ''r'') repeating_llm variant_store 7"
proof -
  note t = answer_question_composition[of "py ''q''" repeating_llm variant_store "7 :: nat"
      "py ''r''"]
  have a: "\<forall>m v. snd (repeating_llm m (v :: nat)) = v"
    by (simp add: repeating_llm_def split: list.splits prod.splits role.splits)
  have b: "\<forall>q k v. snd (variant_store q k (v :: nat)) = v"
    by (simp add: variant_store_def)
  have c: "fst (expand_query (py ''q'') repeating_llm (7 :: nat)) \<noteq> Inr []"
    by (simp add: expand_query_def expand_prompt_def repeating_llm_def example_x_candidates)
  have d: "answer_question (py ''q'') repeating_llm variant_store (7 :: nat)
     = answer_composition sole_candidate_fallback (\<lambda>c. c) expand_prompt prompt
         (py ''q'') repeating_llm variant_store 7"
    by (rule t[THEN conjunct2, THEN conjunct1, THEN mp, OF c])
  note s = t[THEN conjunct2, THEN conjunct2, THEN mp, OF conjI[OF a b]]
  have e: "snd (answer_question (py ''q'') repeating_llm variant_store (7 :: nat)) = 7"
    by (rule s[THEN conjunct1])
  have f: "answer_question (py ''r'') repeating_llm variant_store
       (snd (answer_question (py ''q'') repeating_llm variant_store (7 :: nat)))
     = answer_question (py ''r'') repeating_llm variant_store 7"
    by (rule s[THEN conjunct2])
  from a b c d e f show ?thesis by (intro conjI)
qed

text \<open>
  C8 as stated fails against the composition of the specification, which has the
  fallback and the trimmed key. With the empty reply the code searches nothing and the
  specification searches the question. With two passages that differ in a leading space
  the code puts both into the context and the specification one.
\<close>

theorem answer_spec_counterexample:
  "answer_question (py ''q'') silent_llm recording_store [] = (Inr [], []) \<and>
   answer_spec expand_prompt prompt (py ''q'') silent_llm recording_store []
     = (Inr [], [py ''q'']) \<and>
   answer_question (py ''q'') silent_llm recording_store []
     \<noteq> answer_spec expand_prompt prompt (py ''q'') silent_llm recording_store [] \<and>
   answer_question (py ''q'') repeating_llm variant_store ()
     = (Inr (system_prefix @ py ''a\<newline>\<newline>a'' @ system_suffix), ()) \<and>
   answer_spec expand_prompt prompt (py ''q'') repeating_llm variant_store ()
     = (Inr (system_prefix @ py ''a'' @ system_suffix), ()) \<and>
   answer_question (py ''q'') repeating_llm variant_store ()
     \<noteq> answer_spec expand_prompt prompt (py ''q'') repeating_llm variant_store ()"
proof -
  have n1: "answer_question (py ''q'') silent_llm recording_store []
     \<noteq> answer_spec expand_prompt prompt (py ''q'') silent_llm recording_store []"
    unfolding example_fallback_code example_fallback_spec by (simp add: py_def)
  have n2: "answer_question (py ''q'') repeating_llm variant_store ()
     \<noteq> answer_spec expand_prompt prompt (py ''q'') repeating_llm variant_store ()"
    unfolding example_key_code example_key_spec by (simp add: py_def)
  from example_fallback_code example_fallback_spec n1 example_key_code example_key_spec n2
  show ?thesis by (intro conjI)
qed

end
